theory Spec2Isabelle
  imports Complex_Main "HOL-Library.Sublist"
begin

text \<open>
  A model of \<open>app.py\<close>, the dashboard that reads an uploaded energy-trade dataset,
  cleans it and sends the cleaned records to a remote endpoint in chunks. The functions
  keep their names. What the program gets from its libraries and from the network is made
  explicit: the remote side and the file readers are functions handed
  to the model, the messages shown to the user are returned as a list of events, and a
  Python exception is a value of \<open>py_error\<close>. The definitions come first, one section for
  each part of the program; the properties follow in the same order.
\<close>

section \<open>Chunked submission (\<open>send_post_request\<close>, \<open>send_data_in_chunks\<close>)\<close>

text \<open>
  The value \<open>response.json()\<close> returns: a decoded JSON document as a Python object.
  Numbers are kept exact; only whether a number is zero matters below.
\<close>

datatype json =
    JNull
  | JBool bool
  | JNum rat
  | JStr string
  | JArr "json list"
  | JObj "(string \<times> json) list"

text \<open>Python's truth value of a decoded JSON document, as \<open>if response:\<close> tests it.\<close>

fun truthy :: "json \<Rightarrow> bool" where
  "truthy JNull = False"
| "truthy (JBool b) = b"
| "truthy (JNum r) = (r \<noteq> 0)"
| "truthy (JStr s) = (s \<noteq> [])"
| "truthy (JArr xs) = (xs \<noteq> [])"
| "truthy (JObj kvs) = (kvs \<noteq> [])"

text \<open>
  What one call of \<open>requests.post\<close> can do: raise a \<open>RequestException\<close> (connection
  error, timeout), or return a response with a status code and a body. The body is
  \<open>Some j\<close> when it is a JSON document and \<open>None\<close> when it is not.
\<close>

datatype http_outcome =
    RequestFailed
  | Response nat "json option"

text \<open>
  The remote side: the outcome of the \<open>k\<close>-th request of a run (counted from 0), given
  the URL and the body sent.
\<close>

type_synonym 'a network = "nat \<Rightarrow> string \<Rightarrow> 'a list \<Rightarrow> http_outcome"

text \<open>What the user and the network see, in the order it happens.\<close>

datatype 'a event =
    Post string "'a list"
  | StErrorRequest
  | StSuccess nat nat
  | StFailed nat nat

text \<open>The Python exceptions the modelled functions raise or catch.\<close>

datatype py_error =
    ZeroDivisionError
  | IndexError
  | ValueError string
  | LibraryError string

text \<open>
  \<open>response.raise_for_status()\<close> raises \<open>HTTPError\<close> (a \<open>RequestException\<close>) exactly for
  the status codes 400 to 599.
\<close>

definition raise_for_status :: "nat \<Rightarrow> bool" where
  "raise_for_status status = (400 \<le> status \<and> status < 600)"

text \<open>
  \<open>send_post_request\<close>: the decoded body, or \<open>None\<close> after \<open>st.error\<close> when a
  \<open>RequestException\<close> was caught. A body that is not JSON makes \<open>response.json()\<close>
  raise \<open>requests.exceptions.JSONDecodeError\<close>, which is a \<open>RequestException\<close>
  (requests 2.27 and later) and is caught as well.
\<close>

definition send_post_request ::
  "'a network \<Rightarrow> nat \<Rightarrow> string \<Rightarrow> 'a list \<Rightarrow> json option \<times> 'a event list" where
  "send_post_request net k url data_chunk =
     (case net k url data_chunk of
        RequestFailed \<Rightarrow> (None, [Post url data_chunk, StErrorRequest])
      | Response status body \<Rightarrow>
          if raise_for_status status then (None, [Post url data_chunk, StErrorRequest])
          else (case body of
                  None \<Rightarrow> (None, [Post url data_chunk, StErrorRequest])
                | Some j \<Rightarrow> (Some j, [Post url data_chunk])))"

text \<open>\<open>if response:\<close> on the value \<open>send_post_request\<close> returned.\<close>

fun response_truthy :: "json option \<Rightarrow> bool" where
  "response_truthy None = False"
| "response_truthy (Some j) = truthy j"

text \<open>
  \<open>len(data) // chunk_size + (1 if len(data) % chunk_size > 0 else 0)\<close>. Python's \<open>//\<close>
  and \<open>%\<close> on integers round towards minus infinity, as \<open>div\<close> and \<open>mod\<close> on \<open>int\<close> do.
\<close>

definition num_chunks :: "'a list \<Rightarrow> int \<Rightarrow> int" where
  "num_chunks data chunk_size =
     int (length data) div chunk_size
       + (if int (length data) mod chunk_size > 0 then 1 else 0)"

text \<open>
  Python's slice \<open>xs[lo:hi]\<close>: a negative bound counts from the end, and both bounds
  are clamped to the list.
\<close>

definition slice_bound :: "nat \<Rightarrow> int \<Rightarrow> nat" where
  "slice_bound n b = (if b < 0 then nat (max 0 (b + int n)) else min n (nat b))"

definition py_slice :: "'a list \<Rightarrow> int \<Rightarrow> int \<Rightarrow> 'a list" where
  "py_slice xs lo hi =
     (let a = slice_bound (length xs) lo; b = slice_bound (length xs) hi
      in take (b - a) (drop a xs))"

text \<open>\<open>data[i * chunk_size:(i + 1) * chunk_size]\<close>\<close>

definition chunk_at :: "'a list \<Rightarrow> int \<Rightarrow> nat \<Rightarrow> 'a list" where
  "chunk_at data chunk_size i = py_slice data (int i * chunk_size) ((int i + 1) * chunk_size)"

text \<open>
  The body of the \<open>for\<close> loop, over the indices still to visit; \<open>break\<close> ends the
  recursion.
\<close>

fun submit_loop ::
  "'a network \<Rightarrow> string \<Rightarrow> 'a list \<Rightarrow> int \<Rightarrow> nat \<Rightarrow> nat list \<Rightarrow> 'a event list" where
  "submit_loop net url data chunk_size n [] = []"
| "submit_loop net url data chunk_size n (i # rest) =
     (let chunk = chunk_at data chunk_size i;
          (response, evs) = send_post_request net i url chunk
      in if response_truthy response
         then evs @ [StSuccess (i + 1) n] @ submit_loop net url data chunk_size n rest
         else evs @ [StFailed (i + 1) n])"

definition send_data_in_chunks ::
  "'a network \<Rightarrow> string \<Rightarrow> 'a list \<Rightarrow> int \<Rightarrow> py_error + 'a event list" where
  "send_data_in_chunks net url data chunk_size =
     (if chunk_size = 0 then Inl ZeroDivisionError
      else Inr (submit_loop net url data chunk_size (nat (num_chunks data chunk_size))
                  [0..<nat (num_chunks data chunk_size)]))"

text \<open>The chunks the loop would cut if no submission failed.\<close>

definition chunks :: "'a list \<Rightarrow> int \<Rightarrow> 'a list list" where
  "chunks data chunk_size =
     map (chunk_at data chunk_size) [0..<nat (num_chunks data chunk_size)]"

text \<open>The bodies of the requests issued, in order.\<close>

fun posted :: "'a event list \<Rightarrow> 'a list list" where
  "posted [] = []"
| "posted (Post url c # evs) = c # posted evs"
| "posted (e # evs) = posted evs"

text \<open>Whether the \<open>k\<close>-th request, carrying chunk \<open>k\<close>, is taken as a success.\<close>

definition chunk_ok :: "'a network \<Rightarrow> string \<Rightarrow> 'a list \<Rightarrow> int \<Rightarrow> nat \<Rightarrow> bool" where
  "chunk_ok net url data chunk_size i =
     response_truthy (fst (send_post_request net i url (chunk_at data chunk_size i)))"

text \<open>The endpoint \<open>main\<close> submits to.\<close>

definition main_url :: string where
  "main_url = ''https://7a49mfw9t0.execute-api.ap-south-1.amazonaws.com/myfunction''"

text \<open>
  Three remote sides used to run the loop on concrete inputs: one that answers every
  request with 200 and a non-empty JSON object, one that answers 200 with the empty
  object \<open>{}\<close>, and one whose second answer is a 500.
\<close>

definition accepting_net :: "'a network" where
  "accepting_net k url body = Response 200 (Some (JObj [(''status'', JStr ''ok'')]))"

definition empty_object_net :: "'a network" where
  "empty_object_net k url body = Response 200 (Some (JObj []))"

definition second_fails_net :: "'a network" where
  "second_fails_net k url body =
     (if k = 1 then Response 500 None else Response 200 (Some (JObj [(''status'', JStr ''ok'')])))"

section \<open>Datasets and cleaning (\<open>clean_data\<close>)\<close>

text \<open>
  A scalar of a dataset: missing (\<open>None\<close>, \<open>NaN\<close>), a number or a string. Numbers are
  exact rationals: rounding, overflow and the infinities of binary floating point are
  not modelled. Booleans, dates and nested values are outside the model.
\<close>

datatype cell = Missing | Num rat | Str string

text \<open>
  A \<open>DataFrame\<close>: its columns in order, each a name and its values, all of one length.
  \<open>read_csv\<close> and \<open>read_json\<close> give columns of pairwise different names.
\<close>

type_synonym frame = "(string \<times> cell list) list"

definition nrows :: "frame \<Rightarrow> nat" where
  "nrows df = (case df of [] \<Rightarrow> 0 | (name, col) # rest \<Rightarrow> length col)"

definition well_formed :: "frame \<Rightarrow> bool" where
  "well_formed df =
     (distinct (map fst df) \<and> list_all (\<lambda>(name, col). length col = nrows df) df)"

definition row_at :: "frame \<Rightarrow> nat \<Rightarrow> cell list" where
  "row_at df i = map (\<lambda>(name, col). col ! i) df"

definition rows :: "frame \<Rightarrow> cell list list" where
  "rows df = map (row_at df) [0..<nrows df]"

text \<open>
  \<open>df.duplicated()\<close> with \<open>keep='first'\<close>: row \<open>i\<close> repeats an earlier row. Two missing
  values count as equal.
\<close>

definition duplicated :: "frame \<Rightarrow> nat \<Rightarrow> bool" where
  "duplicated df i = list_ex (\<lambda>j. row_at df j = row_at df i) [0..<i]"

text \<open>\<open>df.drop_duplicates()\<close>: the rows that repeat no earlier row, in order.\<close>

definition kept_rows :: "frame \<Rightarrow> nat list" where
  "kept_rows df = filter (\<lambda>i. \<not> duplicated df i) [0..<nrows df]"

definition drop_duplicates :: "frame \<Rightarrow> frame" where
  "drop_duplicates df = map (\<lambda>(name, col). (name, map (\<lambda>i. col ! i) (kept_rows df))) df"

text \<open>
  How the library reads one string as a number: not at all, as \<open>NaN\<close>, or as a number.
  The reader itself is a parameter of the model.
\<close>

datatype parse_result = Unparseable | IsNaN | IsNumber rat

type_synonym number_parser = "string \<Rightarrow> parse_result"

text \<open>The numeric value of one cell, if it has one.\<close>

fun coerce_cell :: "number_parser \<Rightarrow> cell \<Rightarrow> cell option" where
  "coerce_cell parse Missing = Some Missing"
| "coerce_cell parse (Num r) = Some (Num r)"
| "coerce_cell parse (Str s) =
     (case parse s of Unparseable \<Rightarrow> None | IsNaN \<Rightarrow> Some Missing | IsNumber r \<Rightarrow> Some (Num r))"

text \<open>
  The conversion loop of \<open>pd.to_numeric\<close>: the values are converted one after the other,
  and the first value that does not convert raises \<open>ValueError\<close>.
\<close>

fun maybe_convert_numeric :: "number_parser \<Rightarrow> cell list \<Rightarrow> py_error + cell list" where
  "maybe_convert_numeric parse [] = Inr []"
| "maybe_convert_numeric parse (v # vs) =
     (case coerce_cell parse v of
        None \<Rightarrow> Inl (ValueError ''Unable to parse string'')
      | Some w \<Rightarrow>
          (case maybe_convert_numeric parse vs of
             Inl error \<Rightarrow> Inl error
           | Inr ws \<Rightarrow> Inr (w # ws)))"

text \<open>
  \<open>pd.to_numeric(col, errors='ignore')\<close>: the converted values, or, when the loop raised,
  the column that was passed in.
\<close>

definition to_numeric_ignore :: "number_parser \<Rightarrow> cell list \<Rightarrow> cell list" where
  "to_numeric_ignore parse col =
     (case maybe_convert_numeric parse col of Inl error \<Rightarrow> col | Inr converted \<Rightarrow> converted)"

text \<open>\<open>for col in df.columns: df[col] = pd.to_numeric(df[col], errors='ignore')\<close>\<close>

definition coerce_columns :: "number_parser \<Rightarrow> frame \<Rightarrow> frame" where
  "coerce_columns parse df = map (\<lambda>(name, col). (name, to_numeric_ignore parse col)) df"

text \<open>
  A column of a numeric dtype, as \<open>select_dtypes(include='number')\<close> picks it after the
  conversion loop: it holds no string.
\<close>

fun is_number_cell :: "cell \<Rightarrow> bool" where
  "is_number_cell (Str s) = False"
| "is_number_cell c = True"

definition is_numeric :: "cell list \<Rightarrow> bool" where
  "is_numeric col = list_all is_number_cell col"

text \<open>The values of a column that are not missing.\<close>

fun present :: "cell list \<Rightarrow> rat list" where
  "present [] = []"
| "present (Num r # col) = r # present col"
| "present (c # col) = present col"

text \<open>
  \<open>x.mean()\<close>: the mean of the values present; \<open>None\<close> stands for \<open>NaN\<close>, the mean of none.
  The mean is the exact one. The library computes it in binary floating point: its result
  is rounded, and it is \<open>NaN\<close> also when infinities of both signs meet. The properties
  proved of cleaning are about which rows are kept and which cells change, not about the
  value that is filled in.
\<close>

definition mean :: "cell list \<Rightarrow> rat option" where
  "mean col =
     (if present col = [] then None
      else Some (sum_list (present col) / of_nat (length (present col))))"

text \<open>\<open>x.fillna(m)\<close>; filling with \<open>NaN\<close> changes nothing.\<close>

definition fillna :: "cell list \<Rightarrow> rat option \<Rightarrow> cell list" where
  "fillna col m =
     (case m of None \<Rightarrow> col | Some r \<Rightarrow> map (\<lambda>c. if c = Missing then Num r else c) col)"

text \<open>\<open>df[numeric_cols] = df[numeric_cols].apply(lambda x: x.fillna(x.mean()))\<close>\<close>

definition fill_numeric :: "frame \<Rightarrow> frame" where
  "fill_numeric df =
     map (\<lambda>(name, col). (name, if is_numeric col then fillna col (mean col) else col)) df"

definition clean_data :: "number_parser \<Rightarrow> frame \<Rightarrow> frame" where
  "clean_data parse df = fill_numeric (coerce_columns parse (drop_duplicates df))"

text \<open>A reader of unsigned decimal numerals, to run the model on concrete datasets.\<close>

definition digit_value :: "char \<Rightarrow> nat" where
  "digit_value c = of_char c - 48"

definition decimal_parser :: number_parser where
  "decimal_parser s =
     (if s = [] then IsNaN
      else if list_all (\<lambda>c. c \<in> set ''0123456789'') s
      then IsNumber (of_nat (foldl (\<lambda>a c. 10 * a + digit_value c) 0 s))
      else Unparseable)"

text \<open>
  A column that a second conversion and fill leave as it is: numeric with no missing
  value to fill, or holding a value that does not convert.
\<close>

definition settled :: "number_parser \<Rightarrow> cell list \<Rightarrow> bool" where
  "settled parse col =
     ((is_numeric col \<and> (Missing \<in> set col \<longrightarrow> present col = []))
      \<or> (\<exists>v \<in> set col. coerce_cell parse v = None))"

text \<open>Two concrete datasets.\<close>

definition fill_makes_duplicate :: frame where
  "fill_makes_duplicate =
     [(''energy_source'', [Str ''solar'', Str ''solar'']),
      (''production_volume'', [Num 100, Missing])]"

definition small_dataset :: frame where
  "small_dataset =
     [(''energy_source'', [Str ''solar'', Str ''solar'', Str ''wind'', Str ''gas'']),
      (''production_volume'', [Num 1, Num 1, Num 2, Missing]),
      (''year'', [Str ''2020'', Str ''2020'', Str ''2021'', Str '''']),
      (''note'', [Str ''12'', Str ''12'', Str ''n/a'', Str ''7''])]"

section \<open>File ingestion (\<open>process_uploaded_file\<close>) and \<open>main\<close>\<close>

text \<open>An uploaded file: its declared name and its content.\<close>

record uploaded_file =
  file_name :: string
  file_content :: string

text \<open>
  \<open>s.split(sep)\<close> for a separator of one character: the pieces between the separators,
  never an empty list.
\<close>

fun split_on :: "char \<Rightarrow> string \<Rightarrow> string list" where
  "split_on sep [] = [[]]"
| "split_on sep (c # cs) =
     (if c = sep then [] # split_on sep cs
      else (case split_on sep cs of
              [] \<Rightarrow> [[c]]
            | piece # pieces \<Rightarrow> (c # piece) # pieces))"

text \<open>\<open>xs[-1]\<close>, which raises \<open>IndexError\<close> on an empty list.\<close>

definition py_last :: "'a list \<Rightarrow> py_error + 'a" where
  "py_last xs = (if xs = [] then Inl IndexError else Inr (last xs))"

text \<open>\<open>file.name.split('.')[-1]\<close>\<close>

definition file_extension :: "string \<Rightarrow> py_error + string" where
  "file_extension name = py_last (split_on CHR ''.'' name)"

text \<open>
  \<open>pd.read_csv\<close> and \<open>pd.read_json\<close> are parameters: on a file, each either raises or
  returns a dataset.
\<close>

type_synonym reader = "uploaded_file \<Rightarrow> py_error + frame"

text \<open>The body of the \<open>try\<close> block: \<open>Inl\<close> is an exception raised in it.\<close>

definition try_body :: "reader \<Rightarrow> reader \<Rightarrow> uploaded_file \<Rightarrow> py_error + frame" where
  "try_body read_csv read_json file =
     (case file_extension (file_name file) of
        Inl error \<Rightarrow> Inl error
      | Inr extension \<Rightarrow>
          if extension = ''csv'' then read_csv file
          else if extension = ''json'' then read_json file
          else Inl (ValueError ''Unsupported file format''))"

text \<open>
  \<open>process_uploaded_file\<close>: the dataset or \<open>None\<close>, and the errors shown by \<open>st.error\<close>.
  \<open>except Exception\<close> catches every exception of the body.
\<close>

definition process_uploaded_file ::
  "reader \<Rightarrow> reader \<Rightarrow> uploaded_file \<Rightarrow> frame option \<times> py_error list" where
  "process_uploaded_file read_csv read_json file =
     (case try_body read_csv read_json file of
        Inl error \<Rightarrow> (None, [error])
      | Inr df \<Rightarrow> (Some df, []))"

text \<open>
  \<open>main\<close>, from the file picker on. Everything under \<open>if df is not None:\<close> (showing,
  cleaning, analysis, download, submission) is the parameter \<open>downstream\<close>; the result
  holds the errors shown by \<open>process_uploaded_file\<close> and what \<open>downstream\<close> gave, if it
  ran.
\<close>

definition main ::
  "reader \<Rightarrow> reader \<Rightarrow> (frame \<Rightarrow> 'r) \<Rightarrow> uploaded_file option \<Rightarrow> py_error list \<times> 'r option" where
  "main read_csv read_json downstream uploaded =
     (case uploaded of
        None \<Rightarrow> ([], None)
      | Some file \<Rightarrow>
          (case process_uploaded_file read_csv read_json file of
             (None, shown) \<Rightarrow> (shown, None)
           | (Some df, shown) \<Rightarrow> (shown, Some (downstream df))))"

text \<open>Two readers to run the model: one that reads every file as one fixed dataset, one that fails.\<close>

definition reads_small_dataset :: reader where
  "reads_small_dataset file = Inr small_dataset"

definition read_fails :: reader where
  "read_fails file = Inl (LibraryError ''ParserError: Error tokenizing data'')"

section \<open>Properties of the chunked submission\<close>

lemma chunk_at_pos:
  "chunk_at data (int c) i = take c (drop (i * c) data)"
proof -
  have "int i * int c = int (i * c)" by simp
  then have a: "slice_bound (length data) (int i * int c) = min (length data) (i * c)"
    by (simp add: slice_bound_def del: of_nat_mult)
  have "(int i + 1) * int c = int ((i + 1) * c)" by (simp add: algebra_simps)
  then have b: "slice_bound (length data) ((int i + 1) * int c) = min (length data) ((i + 1) * c)"
    by (simp add: slice_bound_def del: of_nat_mult of_nat_add)
  show ?thesis
    unfolding chunk_at_def py_slice_def Let_def a b
    by (cases "i * c \<le> length data") (auto simp: min_def take_all_iff)
qed

lemma num_chunks_nat:
  "num_chunks data (int c) = int (length data div c + (if length data mod c > 0 then 1 else 0))"
proof -
  have "int (length data) div int c = int (length data div c)"
       "int (length data) mod int c = int (length data mod c)"
    by (simp_all add: zdiv_int zmod_int)
  then show ?thesis
    by (simp add: num_chunks_def)
qed

lemma posted_append: "posted (xs @ ys) = posted xs @ posted ys"
  by (induction xs rule: posted.induct) simp_all

lemma posted_send_post_request:
  "posted (snd (send_post_request net k url c)) = [c]"
  by (simp add: send_post_request_def split: http_outcome.splits option.splits)

lemma send_post_request_events:
  "set (snd (send_post_request net k url c)) \<subseteq> {Post url c, StErrorRequest}"
  by (auto simp: send_post_request_def split: http_outcome.splits option.splits if_splits)

lemma submit_loop_posted:
  "posted (submit_loop net url data cs n js) =
     map (chunk_at data cs)
       (takeWhile (chunk_ok net url data cs) js @ take 1 (dropWhile (chunk_ok net url data cs) js))"
proof (induction js)
  case Nil
  then show ?case by simp
next
  case (Cons i rest)
  obtain r evs where sp: "send_post_request net i url (chunk_at data cs i) = (r, evs)"
    by (cases "send_post_request net i url (chunk_at data cs i)")
  then have p: "posted evs = [chunk_at data cs i]"
    using posted_send_post_request [of net i url "chunk_at data cs i"] by simp
  have ok: "chunk_ok net url data cs i = response_truthy r"
    by (simp add: chunk_ok_def sp)
  show ?case
    using Cons.IH by (simp add: sp ok p posted_append)
qed

lemma submit_loop_failed:
  assumes "StFailed k n' \<in> set (submit_loop net url data cs n js)"
  shows "\<exists>pre post i. js = pre @ i # post \<and> k = Suc i \<and> n' = n
           \<and> (\<forall>j \<in> set pre. chunk_ok net url data cs j)
           \<and> \<not> chunk_ok net url data cs i
           \<and> posted (submit_loop net url data cs n js) = map (chunk_at data cs) (pre @ [i])
           \<and> last (submit_loop net url data cs n js) = StFailed k n'"
  using assms
proof (induction js)
  case Nil
  then show ?case by simp
next
  case (Cons i rest)
  obtain r evs where sp: "send_post_request net i url (chunk_at data cs i) = (r, evs)"
    by (cases "send_post_request net i url (chunk_at data cs i)")
  then have p: "posted evs = [chunk_at data cs i]"
    using posted_send_post_request [of net i url "chunk_at data cs i"] by simp
  have nf: "StFailed k n' \<notin> set evs"
    using send_post_request_events [of net i url "chunk_at data cs i"] sp by auto
  have ok: "chunk_ok net url data cs i = response_truthy r"
    by (simp add: chunk_ok_def sp)
  show ?case
  proof (cases "response_truthy r")
    case True
    then have loop: "submit_loop net url data cs n (i # rest)
        = evs @ [StSuccess (i + 1) n] @ submit_loop net url data cs n rest"
      by (simp add: sp)
    from Cons.prems have "StFailed k n' \<in> set (evs @ [StSuccess (i + 1) n] @ submit_loop net url data cs n rest)"
      unfolding loop .
    with nf have "StFailed k n' \<in> set (submit_loop net url data cs n rest)"
      by auto
    from Cons.IH [OF this] obtain pre post j where
      h: "rest = pre @ j # post" "k = Suc j" "n' = n"
         "\<forall>j \<in> set pre. chunk_ok net url data cs j"
         "\<not> chunk_ok net url data cs j"
         "posted (submit_loop net url data cs n rest) = map (chunk_at data cs) (pre @ [j])"
         "last (submit_loop net url data cs n rest) = StFailed k n'"
      by blast
    have ne: "submit_loop net url data cs n rest \<noteq> []"
      using \<open>StFailed k n' \<in> set (submit_loop net url data cs n rest)\<close> by auto
    have "i # rest = (i # pre) @ j # post" using h(1) by simp
    moreover have "\<forall>j \<in> set (i # pre). chunk_ok net url data cs j"
      using h(4) ok True by simp
    moreover have "posted (submit_loop net url data cs n (i # rest))
        = map (chunk_at data cs) ((i # pre) @ [j])"
      unfolding loop by (simp add: posted_append p h(6))
    moreover have "last (submit_loop net url data cs n (i # rest)) = StFailed k n'"
      unfolding loop using ne h(7) by simp
    ultimately show ?thesis using h(2,3,5) by blast
  next
    case False
    then have loop: "submit_loop net url data cs n (i # rest) = evs @ [StFailed (i + 1) n]"
      by (simp add: sp)
    from Cons.prems have "StFailed k n' \<in> set (evs @ [StFailed (i + 1) n])"
      unfolding loop .
    with nf have kn: "k = Suc i" "n' = n" by auto
    have "i # rest = [] @ i # rest" by simp
    moreover have "posted (submit_loop net url data cs n (i # rest))
        = map (chunk_at data cs) ([] @ [i])"
      unfolding loop by (simp add: posted_append p)
    moreover have "last (submit_loop net url data cs n (i # rest)) = StFailed k n'"
      unfolding loop by (simp add: kn)
    ultimately show ?thesis using kn ok False
      by (metis empty_iff list.set(1))
  qed
qed

lemma upt_split_prefix:
  assumes "[0..<m] = pre @ i # post"
  shows "pre = [0..<i]"
proof -
  have l: "length pre < m" using arg_cong [OF assms, of length] by simp
  have "[0..<m] ! length pre = i" by (simp add: assms)
  with l have i: "i = length pre" by simp
  have "pre = take (length pre) [0..<m]" by (simp add: assms)
  also have "\<dots> = [0..<length pre]" using l by (simp add: take_upt)
  finally show ?thesis using i by simp
qed

lemma ceil_div_nat:
  assumes "0 < c"
  shows "\<lceil>real n / real c\<rceil> = int (n div c + (if n mod c > 0 then 1 else 0))"
proof -
  have "\<lceil>real n / real c\<rceil> = \<lceil>real_of_int (int n) / real_of_int (int c)\<rceil>" by simp
  also have "\<dots> = - (- int n div int c)" by (rule ceiling_divide_eq_div)
  also have "\<dots> = int n div int c + (if int n mod int c > 0 then 1 else 0)"
  proof -
    have "int n mod int c = int (n mod c)" by (simp add: zmod_int)
    then have "int n mod int c \<noteq> 0 \<Longrightarrow> 0 < int n mod int c" by simp
    then show ?thesis using assms by (auto simp: zdiv_zminus1_eq_if)
  qed
  also have "\<dots> = int (n div c + (if n mod c > 0 then 1 else 0))"
  proof -
    have "0 < int n mod int c \<longleftrightarrow> 0 < n mod c"
      by (metis of_nat_0_less_iff zmod_int)
    then show ?thesis by (simp add: zdiv_int)
  qed
  finally show ?thesis .
qed

lemma chunks_cover: "0 < c \<Longrightarrow> n \<le> (n div c + (if n mod c > 0 then 1 else 0)) * c" for n c :: nat
  using dividend_less_div_times less_or_eq_imp_le by force

lemma concat_chunks_take:
  "concat (map (\<lambda>i. take c (drop (i * c) xs)) [0..<m]) = take (m * c) xs"
proof (induction m)
  case 0
  then show ?case by simp
next
  case (Suc m)
  have "take (m * c) xs @ take c (drop (m * c) xs) = take (m * c + c) xs"
    by (simp add: take_add)
  with Suc show ?case by (simp add: add.commute)
qed

lemma chunks_nat:
  "chunks data (int c) =
     map (\<lambda>i. take c (drop (i * c) data))
       [0..<length data div c + (if length data mod c > 0 then 1 else 0)]"
  unfolding chunks_def num_chunks_nat nat_int
  by (rule map_cong) (simp_all add: chunk_at_pos)

lemma concat_chunks: "0 < c \<Longrightarrow> concat (chunks data (int c)) = data"
  using chunks_cover [of c "length data"] by (simp only: chunks_nat concat_chunks_take take_all)

lemma length_chunks_nat:
  "length (chunks data (int c)) = length data div c + (if length data mod c > 0 then 1 else 0)"
  by (simp only: chunks_nat length_map length_upt minus_nat.diff_0)

lemma chunk_bounds:
  assumes "0 < c" "ch \<in> set (chunks data (int c))"
  shows "ch \<noteq> [] \<and> length ch \<le> c"
proof -
  let ?m = "length data div c + (if length data mod c > 0 then 1 else 0)"
  from assms(2) obtain i where i: "i < ?m" "ch = take c (drop (i * c) data)"
    unfolding chunks_nat by auto
  have "i * c < length data"
  proof (cases "length data mod c > 0")
    case True
    with i(1) have "i \<le> length data div c" by simp
    then have "i * c \<le> length data div c * c" by simp
    also have "\<dots> < length data"
      using True div_mult_mod_eq [of "length data" c] by linarith
    finally show ?thesis .
  next
    case False
    with i(1) have "Suc i \<le> length data div c" by simp
    then have "Suc i * c \<le> length data div c * c" by (rule mult_le_mono1)
    also have "\<dots> \<le> length data" by simp
    finally show ?thesis using assms(1) by simp
  qed
  with assms(1) i(2) show ?thesis by simp
qed

lemma full_chunks:
  assumes "Suc i < length (chunks data (int c))"
  shows "length (chunks data (int c) ! i) = c"
proof -
  let ?m = "length data div c + (if length data mod c > 0 then 1 else 0)"
  from assms have i: "Suc i < ?m" by (simp only: length_chunks_nat)
  then have "Suc i \<le> length data div c" by (simp split: if_splits)
  then have "Suc i * c \<le> length data div c * c" by (rule mult_le_mono1)
  also have "\<dots> \<le> length data" by simp
  finally have le: "i * c + c \<le> length data" by (simp add: add.commute)
  have "chunks data (int c) ! i = take c (drop (i * c) data)"
    using i by (simp add: chunks_nat)
  with le show ?thesis by simp
qed

lemma take_while_prefix:
  "takeWhile P js @ take 1 (dropWhile P js) = take (Suc (length (takeWhile P js))) js"
  by (induction js) simp_all

lemma send_data_in_chunks_posted:
  assumes "chunk_size \<noteq> 0"
  shows "\<exists>evs. send_data_in_chunks net url data chunk_size = Inr evs
           \<and> posted evs = take (Suc (length (takeWhile (chunk_ok net url data chunk_size)
                                   [0..<length (chunks data chunk_size)])))
                           (chunks data chunk_size)"
proof -
  let ?n = "nat (num_chunks data chunk_size)"
  let ?ok = "chunk_ok net url data chunk_size"
  have "posted (submit_loop net url data chunk_size ?n [0..<?n])
      = map (chunk_at data chunk_size) (takeWhile ?ok [0..<?n] @ take 1 (dropWhile ?ok [0..<?n]))"
    by (rule submit_loop_posted)
  also have "\<dots> = map (chunk_at data chunk_size) (take (Suc (length (takeWhile ?ok [0..<?n]))) [0..<?n])"
    by (simp only: take_while_prefix)
  also have "\<dots> = take (Suc (length (takeWhile ?ok [0..<?n]))) (chunks data chunk_size)"
    by (simp add: chunks_def take_map)
  finally show ?thesis
    using assms by (simp add: send_data_in_chunks_def chunks_def)
qed

lemma submit_loop_reports_failure:
  assumes "\<forall>j \<in> set pre. chunk_ok net url data cs j" "\<not> chunk_ok net url data cs i"
  shows "StFailed (Suc i) n \<in> set (submit_loop net url data cs n (pre @ i # post))"
  using assms(1)
proof (induction pre)
  case Nil
  obtain r evs where sp: "send_post_request net i url (chunk_at data cs i) = (r, evs)"
    by (cases "send_post_request net i url (chunk_at data cs i)")
  with assms(2) have "\<not> response_truthy r" by (simp add: chunk_ok_def)
  then show ?case by (simp add: sp)
next
  case (Cons j pre)
  obtain r evs where sp: "send_post_request net j url (chunk_at data cs j) = (r, evs)"
    by (cases "send_post_request net j url (chunk_at data cs j)")
  with Cons.prems have "response_truthy r" by (simp add: chunk_ok_def)
  with Cons show ?case by (simp add: sp)
qed

text \<open>
  Claim C1. For every list \<open>data\<close> and every positive \<open>chunk_size\<close>, the chunks that
  \<open>send_data_in_chunks\<close> cuts are consecutive, non-empty and of size at most
  \<open>chunk_size\<close>; their number is the ceiling of \<open>len(data) / chunk_size\<close>; every chunk but
  the last has exactly \<open>chunk_size\<close> records; and their concatenation, in submission
  order, is \<open>data\<close>. The run itself returns, posts a prefix of these chunks in order,
  and posts all of them when every submission is taken as a success.
\<close>

theorem send_data_in_chunks_partition:
  assumes "0 < chunk_size"
  shows "concat (chunks data chunk_size) = data
    \<and> (\<forall>c \<in> set (chunks data chunk_size). c \<noteq> [] \<and> int (length c) \<le> chunk_size)
    \<and> int (length (chunks data chunk_size)) = \<lceil>real (length data) / real_of_int chunk_size\<rceil>
    \<and> (\<forall>i. Suc i < length (chunks data chunk_size)
           \<longrightarrow> int (length (chunks data chunk_size ! i)) = chunk_size)
    \<and> (\<exists>evs. send_data_in_chunks net url data chunk_size = Inr evs
           \<and> prefix (posted evs) (chunks data chunk_size)
           \<and> ((\<forall>i < length (chunks data chunk_size). chunk_ok net url data chunk_size i)
                 \<longrightarrow> posted evs = chunks data chunk_size))"
proof -
  from assms obtain c where c: "chunk_size = int c" "0 < c"
    by (metis zero_less_imp_eq_int)
  have p1: "concat (chunks data chunk_size) = data"
    using c concat_chunks by simp
  have p2: "\<forall>ch \<in> set (chunks data chunk_size). ch \<noteq> [] \<and> int (length ch) \<le> chunk_size"
    using c chunk_bounds [of c _ data] by auto
  have p3: "int (length (chunks data chunk_size)) = \<lceil>real (length data) / real_of_int chunk_size\<rceil>"
    unfolding c(1) length_chunks_nat using ceil_div_nat [OF c(2), of "length data"] by simp
  have p4: "\<forall>i. Suc i < length (chunks data chunk_size)
           \<longrightarrow> int (length (chunks data chunk_size ! i)) = chunk_size"
    using c full_chunks [of _ data c] by simp
  let ?ok = "chunk_ok net url data chunk_size"
  let ?n = "length (chunks data chunk_size)"
  from assms obtain evs where e: "send_data_in_chunks net url data chunk_size = Inr evs"
      "posted evs = take (Suc (length (takeWhile ?ok [0..<?n]))) (chunks data chunk_size)"
    using send_data_in_chunks_posted [of chunk_size net url data] by auto
  have p5: "prefix (posted evs) (chunks data chunk_size)"
    unfolding e(2) by (rule take_is_prefix)
  have p6: "posted evs = chunks data chunk_size" if "\<forall>i < ?n. ?ok i"
  proof -
    from that have tw: "takeWhile ?ok [0..<?n] = [0..<?n]" by (simp add: takeWhile_eq_all_conv)
    show ?thesis unfolding e(2) tw by simp
  qed
  from p1 p2 p3 p4 e(1) p5 p6 show ?thesis by blast
qed

text \<open>Five records in chunks of two, all accepted: chunks of 2, 2 and 1.\<close>

theorem send_data_in_chunks_partition_witness:
  "(0::int) < 2
   \<and> chunks [10, 20, 30, 40, 50 :: nat] 2 = [[10, 20], [30, 40], [50]]
   \<and> concat (chunks [10, 20, 30, 40, 50 :: nat] 2) = [10, 20, 30, 40, 50]
   \<and> \<lceil>real (length [10, 20, 30, 40, 50 :: nat]) / real_of_int 2\<rceil> = 3
   \<and> send_data_in_chunks accepting_net ''u'' [10, 20, 30, 40, 50 :: nat] 2
       = Inr [Post ''u'' [10, 20], StSuccess 1 3, Post ''u'' [30, 40], StSuccess 2 3,
              Post ''u'' [50], StSuccess 3 3]"
proof -
  have n: "num_chunks [10, 20, 30, 40, 50 :: nat] 2 = 3"
    by (simp add: num_chunks_def)
  have u: "[0..<nat 3] = [0, 1, 2]" by (simp add: upt_rec)
  have ch: "chunks [10, 20, 30, 40, 50 :: nat] 2 = [[10, 20], [30, 40], [50]]"
    unfolding chunks_def n u by (simp add: chunk_at_def py_slice_def slice_bound_def)
  have s: "send_data_in_chunks accepting_net ''u'' [10, 20, 30, 40, 50 :: nat] 2
       = Inr [Post ''u'' [10, 20], StSuccess 1 3, Post ''u'' [30, 40], StSuccess 2 3,
              Post ''u'' [50], StSuccess 3 3]"
    unfolding send_data_in_chunks_def n u
    by (simp add: chunk_at_def py_slice_def slice_bound_def send_post_request_def
        accepting_net_def raise_for_status_def)
  have c: "\<lceil>real (length [10, 20, 30, 40, 50 :: nat]) / real_of_int 2\<rceil> = 3"
    by (simp add: ceiling_eq_iff)
  show ?thesis
    using send_data_in_chunks_partition [of 2 "[10, 20, 30, 40, 50 :: nat]" accepting_net "''u''"]
      ch s c by simp
qed

lemma upt_split_at:
  assumes "i < m"
  shows "[0..<m] = [0..<i] @ i # [Suc i..<m]"
proof -
  have "[0..<i + (m - i)] = [0..<i] @ [i..<i + (m - i)]"
    by (rule upt_add_eq_append) simp
  with assms have "[0..<m] = [0..<i] @ [i..<m]" by simp
  with assms show ?thesis by (simp add: upt_conv_Cons)
qed

lemma take_two: "length xs = 3 \<Longrightarrow> take 2 xs = [xs ! 0, xs ! 1]"
  by (simp add: numeral_eq_Suc take_Suc_conv_app_nth)

lemma scenario_1200:
  assumes "length data = 1200"
  shows "num_chunks data 500 = 3"
    and "map length (chunks data 500) = [500, 500, 200]"
proof -
  show n: "num_chunks data 500 = 3" using assms by (simp add: num_chunks_def)
  have "chunks data (int 500) = map (\<lambda>i. take 500 (drop (i * 500) data)) [0..<3]"
    unfolding chunks_nat using assms by simp
  moreover have "[0..<3] = [0, 1, Suc 1]" by (simp add: upt_rec)
  ultimately show "map length (chunks data 500) = [500, 500, 200]"
    using assms by (simp add: min_def)
qed

text \<open>
  Claim C2. The requests of a run carry a prefix of the chunks, in order, one request per
  chunk. When chunk \<open>i + 1\<close> is reported as failed, exactly the chunks up to it were
  submitted, the report is the last event of the run (no later chunk, no retry), and a
  chunk whose response is not taken as a success, after successes only, is reported as
  failed. For 1200 records and \<open>chunk_size\<close> 500 the chunks have 500, 500 and 200
  records, and when the second fails only the first two are ever sent.
\<close>

theorem send_data_in_chunks_fail_fast:
  assumes "send_data_in_chunks net url data chunk_size = Inr evs"
  shows "prefix (posted evs) (chunks data chunk_size)
    \<and> (\<forall>i n. StFailed (Suc i) n \<in> set evs \<longrightarrow>
          posted evs = take (Suc i) (chunks data chunk_size)
          \<and> last evs = StFailed (Suc i) n
          \<and> i < length (chunks data chunk_size) \<and> n = length (chunks data chunk_size)
          \<and> \<not> chunk_ok net url data chunk_size i)
    \<and> (\<forall>i < length (chunks data chunk_size).
          (\<forall>j < i. chunk_ok net url data chunk_size j) \<and> \<not> chunk_ok net url data chunk_size i
          \<longrightarrow> StFailed (Suc i) (length (chunks data chunk_size)) \<in> set evs)
    \<and> (length data = 1200 \<and> chunk_size = 500
          \<and> chunk_ok net url data chunk_size 0 \<and> \<not> chunk_ok net url data chunk_size 1 \<longrightarrow>
          map length (chunks data chunk_size) = [500, 500, 200]
          \<and> posted evs = [chunks data chunk_size ! 0, chunks data chunk_size ! 1])"
proof -
  let ?ok = "chunk_ok net url data chunk_size"
  let ?n = "length (chunks data chunk_size)"
  let ?m = "nat (num_chunks data chunk_size)"
  have nm: "?n = ?m" by (simp add: chunks_def)
  from assms have nz: "chunk_size \<noteq> 0"
    by (auto simp: send_data_in_chunks_def split: if_splits)
  with assms have evs: "evs = submit_loop net url data chunk_size ?m [0..<?m]"
    by (simp add: send_data_in_chunks_def)
  from send_data_in_chunks_posted [OF nz, of net url data] assms
  have pe: "posted evs = take (Suc (length (takeWhile ?ok [0..<?n]))) (chunks data chunk_size)"
    by simp
  have p1: "prefix (posted evs) (chunks data chunk_size)"
    unfolding pe by (rule take_is_prefix)
  have p2: "posted evs = take (Suc i) (chunks data chunk_size)
          \<and> last evs = StFailed (Suc i) n \<and> i < ?n \<and> n = ?n \<and> \<not> ?ok i"
    if f: "StFailed (Suc i) n \<in> set evs" for i n
  proof -
    from f obtain pre post j where
      h: "[0..<?m] = pre @ j # post" "Suc i = Suc j" "n = ?m" "\<not> ?ok j"
         "posted evs = map (chunk_at data chunk_size) (pre @ [j])" "last evs = StFailed (Suc i) n"
      unfolding evs using submit_loop_failed [of "Suc i" n net url data chunk_size ?m "[0..<?m]"]
      by blast
    from h(1) have pre: "pre = [0..<j]" by (rule upt_split_prefix)
    have "j \<in> set [0..<?m]" unfolding h(1) by simp
    then have jm: "j < ?m" by simp
    have "map (chunk_at data chunk_size) (pre @ [j]) = map (chunk_at data chunk_size) [0..<Suc j]"
      by (simp add: pre)
    also have "\<dots> = take (Suc j) (chunks data chunk_size)"
      using jm by (simp add: chunks_def take_map take_upt del: upt_Suc)
    finally show ?thesis using h jm nm by simp
  qed
  have p3: "StFailed (Suc i) ?n \<in> set evs" if i: "i < ?n" "\<forall>j < i. ?ok j" "\<not> ?ok i" for i
  proof -
    from i(1) nm have "[0..<?m] = [0..<i] @ i # [Suc i..<?m]"
      by (simp add: upt_split_at)
    moreover have "\<forall>j \<in> set [0..<i]. ?ok j" using i(2) by simp
    ultimately show ?thesis
      unfolding evs nm using submit_loop_reports_failure [OF _ i(3), of "[0..<i]" ?m "[Suc i..<?m]"]
      by simp
  qed
  have p4: "map length (chunks data chunk_size) = [500, 500, 200]
          \<and> posted evs = [chunks data chunk_size ! 0, chunks data chunk_size ! 1]"
    if s: "length data = 1200" "chunk_size = 500" "?ok 0" "\<not> ?ok 1"
  proof -
    have l: "map length (chunks data chunk_size) = [500, 500, 200]"
      unfolding s(2) using s(1) by (rule scenario_1200(2))
    have "length (map length (chunks data chunk_size)) = length [500, 500, 200 :: nat]"
      by (simp only: l)
    then have n3: "?n = 3" by simp
    have u: "[0..<3] = [0, 1, Suc 1]" by (simp add: upt_rec)
    have "takeWhile ?ok [0..<?n] = [0]" unfolding n3 u using s(3,4) by simp
    then have "posted evs = take 2 (chunks data chunk_size)" using pe by (simp add: numeral_2_eq_2)
    also have "\<dots> = [chunks data chunk_size ! 0, chunks data chunk_size ! 1]"
      using n3 by (rule take_two)
    finally show ?thesis using l by simp
  qed
  from p1 p2 p3 p4 show ?thesis by blast
qed

lemma upt_3: "[0..<nat 3] = [0, Suc 0, Suc (Suc 0)]"
  by (simp add: upt_rec)

lemma chunk_at_1200:
  "chunk_at [0..<1200] 500 0 = [0..<500]"
  "chunk_at [0..<1200] 500 (Suc 0) = [500..<1000]"
  "chunk_at [0..<1200] 500 (Suc (Suc 0)) = [1000..<1200]"
  by (simp_all add: chunk_at_def py_slice_def slice_bound_def del: upt_rec_numeral)

lemma run_1200:
  "send_data_in_chunks second_fails_net main_url [0..<1200] 500
     = Inr [Post main_url [0..<500], StSuccess 1 3,
            Post main_url [500..<1000], StErrorRequest, StFailed 2 3]"
proof -
  have n: "num_chunks [0..<1200] 500 = 3" by (simp add: num_chunks_def del: upt_rec_numeral)
  show ?thesis
    unfolding send_data_in_chunks_def n upt_3
    by (simp add: chunk_at_1200 send_post_request_def second_fails_net_def raise_for_status_def
        del: upt_rec_numeral)
qed

text \<open>The scenario run: 1200 records, the second request answered with a 500.\<close>

theorem send_data_in_chunks_fail_fast_witness:
  "send_data_in_chunks second_fails_net main_url [0..<1200] 500
     = Inr [Post main_url [0..<500], StSuccess 1 3,
            Post main_url [500..<1000], StErrorRequest, StFailed 2 3]
   \<and> map length (chunks [0..<1200] 500) = [500, 500, 200]
   \<and> chunk_ok second_fails_net main_url [0..<1200] 500 0
   \<and> \<not> chunk_ok second_fails_net main_url [0..<1200] 500 1
   \<and> posted [Post main_url [0..<500], StSuccess 1 3,
              Post main_url [500..<1000], StErrorRequest, StFailed 2 3]
       = [chunks [0..<1200] 500 ! 0, chunks [0..<1200] 500 ! 1]"
proof -
  have ok0: "chunk_ok second_fails_net main_url [0..<1200] 500 0"
    by (simp add: chunk_ok_def chunk_at_1200 send_post_request_def second_fails_net_def
        raise_for_status_def del: upt_rec_numeral)
  have ok1: "\<not> chunk_ok second_fails_net main_url [0..<1200] 500 1"
    by (simp add: chunk_ok_def chunk_at_1200 send_post_request_def second_fails_net_def
        raise_for_status_def del: upt_rec_numeral)
  have l: "length [0..<1200] = 1200" by simp
  show ?thesis
    using send_data_in_chunks_fail_fast [OF run_1200] ok0 ok1 run_1200 l
    by (simp del: upt_rec_numeral)
qed

text \<open>
  Claim C3 says that a chunk whose POST receives a 2xx response is reported as a success,
  whatever the body, and that the next chunk follows. The loop tests \<open>if response:\<close>,
  the truth value of the decoded body, where \<open>send_post_request\<close> marks a failure by
  \<open>None\<close>: a 200 response whose body is the empty object \<open>{}\<close> is reported as a failed
  chunk, and the second chunk is never sent.
\<close>

theorem success_with_falsy_body_reported_failed:
  "send_data_in_chunks empty_object_net main_url
       [JObj [(''price'', JNum 1)], JObj [(''price'', JNum 2)]] 1
     = Inr [Post main_url [JObj [(''price'', JNum 1)]], StFailed 1 2]"
proof -
  have n: "num_chunks [JObj [(''price'', JNum 1)], JObj [(''price'', JNum 2)]] 1 = 2"
    by (simp add: num_chunks_def)
  have u: "[0..<nat 2] = [0, Suc 0]" by (simp add: upt_rec)
  show ?thesis
    unfolding send_data_in_chunks_def n u
    by (simp add: chunk_at_def py_slice_def slice_bound_def send_post_request_def
        empty_object_net_def raise_for_status_def)
qed

section \<open>Properties of cleaning\<close>


lemma coerce_cell_None: "coerce_cell parse v = None \<Longrightarrow> \<not> is_number_cell v"
  by (cases v) auto

lemma coerce_cell_Some: "coerce_cell parse v = Some w \<Longrightarrow> is_number_cell w"
  by (cases v) (auto split: parse_result.splits)

lemma coerce_cell_number: "is_number_cell v \<Longrightarrow> coerce_cell parse v = Some v"
  by (cases v) auto

text \<open>The conversion loop raises exactly when some value does not convert.\<close>

lemma maybe_convert_numeric_raises:
  "(\<exists>error. maybe_convert_numeric parse col = Inl error)
     \<longleftrightarrow> (\<exists>v \<in> set col. coerce_cell parse v = None)"
proof (induction col)
  case Nil
  then show ?case by simp
next
  case (Cons v vs)
  show ?case
  proof (cases "coerce_cell parse v")
    case None
    then show ?thesis by auto
  next
    case (Some w)
    with Cons.IH show ?thesis
      by (cases "maybe_convert_numeric parse vs") auto
  qed
qed

text \<open>When it returns, it returns the converted value of every cell, in place.\<close>

lemma maybe_convert_numeric_returns:
  "maybe_convert_numeric parse col = Inr converted
     \<longleftrightarrow> map (coerce_cell parse) col = map Some converted"
proof (induction col arbitrary: converted)
  case Nil
  then show ?case by auto
next
  case (Cons v vs)
  show ?case
  proof (cases "coerce_cell parse v")
    case None
    then show ?thesis by auto
  next
    case (Some w)
    show ?thesis
    proof (cases "maybe_convert_numeric parse vs")
      case (Inl error)
      then have "\<And>ws. map (coerce_cell parse) vs \<noteq> map Some ws"
        using Cons.IH by auto
      with Inl Some show ?thesis by (cases converted) auto
    next
      case (Inr ws)
      then have "map (coerce_cell parse) vs = map Some ws" using Cons.IH by simp
      with Inr Some show ?thesis by (cases converted) auto
    qed
  qed
qed

lemma to_numeric_ignore_fail:
  assumes "v \<in> set col" "coerce_cell parse v = None"
  shows "to_numeric_ignore parse col = col"
proof -
  from assms have "\<exists>error. maybe_convert_numeric parse col = Inl error"
    unfolding maybe_convert_numeric_raises by blast
  then show ?thesis by (auto simp: to_numeric_ignore_def)
qed

lemma to_numeric_ignore_ok:
  assumes "\<forall>v \<in> set col. coerce_cell parse v \<noteq> None"
  shows "map Some (to_numeric_ignore parse col) = map (coerce_cell parse) col"
    and "is_numeric (to_numeric_ignore parse col)"
proof -
  from assms have "\<not> (\<exists>error. maybe_convert_numeric parse col = Inl error)"
    unfolding maybe_convert_numeric_raises by blast
  then obtain conv where c: "maybe_convert_numeric parse col = Inr conv"
    by (cases "maybe_convert_numeric parse col") auto
  then have t: "to_numeric_ignore parse col = conv" by (simp add: to_numeric_ignore_def)
  from c have m: "map (coerce_cell parse) col = map Some conv"
    by (simp only: maybe_convert_numeric_returns)
  show "map Some (to_numeric_ignore parse col) = map (coerce_cell parse) col"
    by (simp only: t m)
  have "is_number_cell w" if "w \<in> set conv" for w
  proof -
    from that have "Some w \<in> set (map (coerce_cell parse) col)" unfolding m by simp
    then obtain v where "coerce_cell parse v = Some w" by auto
    then show ?thesis by (rule coerce_cell_Some)
  qed
  then show "is_numeric (to_numeric_ignore parse col)"
    by (simp add: t is_numeric_def list_all_iff)
qed

lemma to_numeric_ignore_numeric:
  assumes "is_numeric col"
  shows "to_numeric_ignore parse col = col"
proof -
  from assms have "map (coerce_cell parse) col = map Some col"
    by (simp add: is_numeric_def list_all_iff coerce_cell_number)
  then have "maybe_convert_numeric parse col = Inr col"
    by (simp only: maybe_convert_numeric_returns)
  then show ?thesis by (simp add: to_numeric_ignore_def)
qed

lemma length_to_numeric_ignore: "length (to_numeric_ignore parse col) = length col"
proof (cases "maybe_convert_numeric parse col")
  case (Inl error)
  then show ?thesis by (simp add: to_numeric_ignore_def)
next
  case (Inr conv)
  then have "map (coerce_cell parse) col = map Some conv"
    by (simp only: maybe_convert_numeric_returns)
  then have "length col = length conv" by (metis length_map)
  with Inr show ?thesis by (simp add: to_numeric_ignore_def)
qed

lemma length_fillna: "length (fillna col m) = length col"
  by (simp add: fillna_def split: option.splits)

lemma nrows_Cons: "nrows ((name, col) # df) = length col"
  by (simp add: nrows_def)

lemma well_formed_col:
  "well_formed df \<Longrightarrow> (name, col) \<in> set df \<Longrightarrow> length col = nrows df"
  by (auto simp: well_formed_def list_all_iff)

lemma nrows_map_cols:
  assumes "\<And>name col. (name, col) \<in> set df \<Longrightarrow> length (f name col) = length col"
  shows "nrows (map (\<lambda>(name, col). (name, f name col)) df) = nrows df"
  using assms by (cases df) (auto simp: nrows_def)

lemma names_map_cols: "map fst (map (\<lambda>(name, col). (name, f name col)) df) = map fst df"
  by (induction df) auto

lemma well_formed_map_cols:
  assumes "well_formed df"
    and "\<And>name col. (name, col) \<in> set df \<Longrightarrow> length (f name col) = length col"
  shows "well_formed (map (\<lambda>(name, col). (name, f name col)) df)"
proof -
  have n: "nrows (map (\<lambda>(name, col). (name, f name col)) df) = nrows df"
    using assms(2) by (rule nrows_map_cols)
  show ?thesis
    unfolding well_formed_def n names_map_cols
    using assms by (auto simp: well_formed_def list_all_iff)
qed

lemma nrows_coerce_columns: "nrows (coerce_columns parse df) = nrows df"
  unfolding coerce_columns_def by (rule nrows_map_cols) (rule length_to_numeric_ignore)

lemma nrows_fill_numeric: "nrows (fill_numeric df) = nrows df"
  unfolding fill_numeric_def by (rule nrows_map_cols) (simp add: length_fillna)

lemma well_formed_coerce_columns: "well_formed df \<Longrightarrow> well_formed (coerce_columns parse df)"
  unfolding coerce_columns_def by (rule well_formed_map_cols) (simp_all add: length_to_numeric_ignore)

lemma well_formed_fill_numeric: "well_formed df \<Longrightarrow> well_formed (fill_numeric df)"
  unfolding fill_numeric_def by (rule well_formed_map_cols) (simp_all add: length_fillna)

lemma nrows_drop_duplicates:
  "well_formed df \<Longrightarrow> nrows (drop_duplicates df) = length (kept_rows df)"
  by (cases df) (auto simp: drop_duplicates_def nrows_def kept_rows_def)

lemma well_formed_drop_duplicates:
  assumes "well_formed df"
  shows "well_formed (drop_duplicates df)"
proof -
  have "distinct (map fst (drop_duplicates df))"
    using assms unfolding drop_duplicates_def names_map_cols by (simp add: well_formed_def)
  moreover have "list_all (\<lambda>(name, col). length col = nrows (drop_duplicates df)) (drop_duplicates df)"
    unfolding nrows_drop_duplicates [OF assms]
    by (auto simp: drop_duplicates_def list_all_iff)
  ultimately show ?thesis by (simp add: well_formed_def)
qed

lemma well_formed_clean_data: "well_formed df \<Longrightarrow> well_formed (clean_data parse df)"
  by (simp add: clean_data_def well_formed_fill_numeric well_formed_coerce_columns
      well_formed_drop_duplicates)

lemma nrows_clean_data:
  "well_formed df \<Longrightarrow> nrows (clean_data parse df) = length (kept_rows df)"
  by (simp add: clean_data_def nrows_fill_numeric nrows_coerce_columns nrows_drop_duplicates)

lemma kept_rows_bound: "i \<in> set (kept_rows df) \<Longrightarrow> i < nrows df"
  by (simp add: kept_rows_def)

lemma row_at_drop_duplicates:
  assumes "k < length (kept_rows df)"
  shows "row_at (drop_duplicates df) k = row_at df (kept_rows df ! k)"
  using assms by (simp add: row_at_def drop_duplicates_def case_prod_unfold)

lemma rows_drop_duplicates:
  assumes "well_formed df"
  shows "rows (drop_duplicates df) = map (row_at df) (kept_rows df)"
proof -
  have "rows (drop_duplicates df) = map (row_at (drop_duplicates df)) [0..<length (kept_rows df)]"
    by (simp add: rows_def nrows_drop_duplicates [OF assms])
  also have "\<dots> = map (\<lambda>k. row_at df (kept_rows df ! k)) [0..<length (kept_rows df)]"
    by (rule map_cong) (simp_all add: row_at_drop_duplicates)
  also have "\<dots> = map (row_at df) (map (\<lambda>k. kept_rows df ! k) [0..<length (kept_rows df)])"
    by simp
  also have "\<dots> = map (row_at df) (kept_rows df)"
    by (simp only: map_nth)
  finally show ?thesis .
qed

lemma duplicated_iff: "duplicated df i \<longleftrightarrow> (\<exists>j < i. row_at df j = row_at df i)"
  by (auto simp: duplicated_def list_ex_iff)

lemma distinct_kept_rows: "distinct (map (row_at df) (kept_rows df))"
proof -
  have d: "distinct (kept_rows df)" by (simp add: kept_rows_def)
  have "inj_on (row_at df) (set (kept_rows df))"
  proof (rule inj_onI)
    fix a b
    assume a: "a \<in> set (kept_rows df)" and b: "b \<in> set (kept_rows df)"
      and e: "row_at df a = row_at df b"
    from a b have na: "\<not> duplicated df a" and nb: "\<not> duplicated df b"
      by (simp_all add: kept_rows_def)
    show "a = b"
    proof (rule ccontr)
      assume "a \<noteq> b"
      then consider "a < b" | "b < a" by linarith
      then show False
      proof cases
        case 1
        with e have "duplicated df b" by (auto simp: duplicated_iff)
        with nb show False ..
      next
        case 2
        with e have "duplicated df a" by (auto simp: duplicated_iff)
        with na show False ..
      qed
    qed
  qed
  with d show ?thesis by (simp add: distinct_map)
qed

lemma first_occurrence_kept:
  "i < nrows df \<Longrightarrow> \<exists>j \<in> set (kept_rows df). j \<le> i \<and> row_at df j = row_at df i"
proof (induction i rule: less_induct)
  case (less i)
  show ?case
  proof (cases "duplicated df i")
    case False
    with less.prems have "i \<in> set (kept_rows df)" by (simp add: kept_rows_def)
    then show ?thesis by auto
  next
    case True
    then obtain j where j: "j < i" "row_at df j = row_at df i" by (auto simp: duplicated_iff)
    with less.prems have "j < nrows df" by simp
    from less.IH [OF j(1) this] obtain k where
      "k \<in> set (kept_rows df)" "k \<le> j" "row_at df k = row_at df j" by auto
    with j show ?thesis by (intro bexI [of _ k]) auto
  qed
qed

lemma set_rows_drop_duplicates:
  assumes "well_formed df"
  shows "set (rows (drop_duplicates df)) = set (rows df)"
proof
  have "set (map (row_at df) (kept_rows df)) \<subseteq> set (rows df)"
    using kept_rows_bound [of _ df] by (auto simp: rows_def)
  then show "set (rows (drop_duplicates df)) \<subseteq> set (rows df)"
    by (simp only: rows_drop_duplicates [OF assms])
  show "set (rows df) \<subseteq> set (rows (drop_duplicates df))"
  proof
    fix r assume "r \<in> set (rows df)"
    then obtain i where i: "i < nrows df" "r = row_at df i" by (auto simp: rows_def)
    from first_occurrence_kept [OF i(1)] obtain j where
      "j \<in> set (kept_rows df)" "row_at df j = row_at df i" by auto
    with i have "r \<in> row_at df ` set (kept_rows df)" by (metis imageI)
    then have "r \<in> set (map (row_at df) (kept_rows df))" by simp
    then show "r \<in> set (rows (drop_duplicates df))"
      by (simp only: rows_drop_duplicates [OF assms])
  qed
qed

lemma kept_rows_all:
  assumes "distinct (rows df)"
  shows "kept_rows df = [0..<nrows df]"
proof -
  have "\<not> duplicated df i" if "i < nrows df" for i
  proof
    assume "duplicated df i"
    then obtain j where j: "j < i" "row_at df j = row_at df i" by (auto simp: duplicated_iff)
    with that have "rows df ! j = rows df ! i" "j < length (rows df)" "i < length (rows df)"
      by (simp_all add: rows_def)
    with assms j(1) show False by (simp add: nth_eq_iff_index_eq)
  qed
  then show ?thesis by (simp add: kept_rows_def)
qed

lemma drop_duplicates_distinct:
  assumes "well_formed df" "distinct (rows df)"
  shows "drop_duplicates df = df"
proof -
  have "map (\<lambda>(name, col). (name, map (\<lambda>i. col ! i) [0..<nrows df])) df = map (\<lambda>x. x) df"
  proof (rule map_cong [OF refl])
    fix x assume x: "x \<in> set df"
    obtain name col where nc: "x = (name, col)" by (cases x)
    with x assms(1) have "length col = nrows df" by (simp add: well_formed_col)
    then have "map (\<lambda>i. col ! i) [0..<nrows df] = col" by (metis map_nth)
    with nc show "(case x of (name, col) \<Rightarrow> (name, map (\<lambda>i. col ! i) [0..<nrows df])) = x"
      by simp
  qed
  then show ?thesis
    by (simp add: drop_duplicates_def kept_rows_all [OF assms(2)])
qed


lemma present_empty_iff: "present col = [] \<longleftrightarrow> (\<forall>r. Num r \<notin> set col)"
  by (induction col rule: present.induct) auto

lemma set_present: "set (present col) = {r. Num r \<in> set col}"
  by (induction col rule: present.induct) auto

lemma fillna_no_missing: "Missing \<notin> set col \<Longrightarrow> fillna col m = col"
  by (cases m) (auto simp: fillna_def intro!: map_idI)

lemma fillna_mean_all_missing: "present col = [] \<Longrightarrow> fillna col (mean col) = col"
  by (simp add: fillna_def mean_def)

lemma is_numeric_fillna: "is_numeric col \<Longrightarrow> is_numeric (fillna col m)"
  by (auto simp: is_numeric_def fillna_def list_all_iff split: option.splits)

lemma fillna_Some_no_missing: "Missing \<notin> set (fillna col (Some r))"
  by (auto simp: fillna_def)

lemma settled_fixed:
  assumes "settled parse col"
  shows "to_numeric_ignore parse col = col"
    and "is_numeric col \<Longrightarrow> fillna col (mean col) = col"
proof -
  from assms consider
      (num) "is_numeric col" "Missing \<in> set col \<longrightarrow> present col = []"
    | (str) v where "v \<in> set col" "coerce_cell parse v = None"
    by (auto simp: settled_def)
  then show "to_numeric_ignore parse col = col"
    by cases (simp_all add: to_numeric_ignore_numeric to_numeric_ignore_fail)
  show "fillna col (mean col) = col" if n: "is_numeric col"
  proof (cases "Missing \<in> set col")
    case False
    then show ?thesis by (simp add: fillna_no_missing)
  next
    case True
    with assms n have "present col = []"
      by (auto simp: settled_def is_numeric_def list_all_iff dest: coerce_cell_None)
    then show ?thesis by (simp add: fillna_mean_all_missing)
  qed
qed

lemma settled_after_clean:
  "settled parse
     (if is_numeric (to_numeric_ignore parse col)
      then fillna (to_numeric_ignore parse col) (mean (to_numeric_ignore parse col))
      else to_numeric_ignore parse col)"
proof (cases "\<exists>v \<in> set col. coerce_cell parse v = None")
  case True
  then obtain v where v: "v \<in> set col" "coerce_cell parse v = None" by auto
  then have t: "to_numeric_ignore parse col = col" by (rule to_numeric_ignore_fail)
  from v have "\<not> is_numeric col"
    by (auto simp: is_numeric_def list_all_iff dest: coerce_cell_None)
  with v show ?thesis by (auto simp: t settled_def)
next
  case False
  then have n: "is_numeric (to_numeric_ignore parse col)"
    by (intro to_numeric_ignore_ok(2)) auto
  let ?c = "to_numeric_ignore parse col"
  show ?thesis
  proof (cases "mean ?c")
    case None
    then have "present ?c = []" by (simp add: mean_def split: if_splits)
    with n None show ?thesis by (simp add: settled_def fillna_def)
  next
    case (Some r)
    with n show ?thesis
      using fillna_Some_no_missing [of ?c r] is_numeric_fillna [OF n, of "Some r"]
      by (simp add: settled_def)
  qed
qed

lemma clean_data_cols:
  "clean_data parse df =
     map (\<lambda>(name, col). (name,
            if is_numeric (to_numeric_ignore parse (map (\<lambda>i. col ! i) (kept_rows df)))
            then fillna (to_numeric_ignore parse (map (\<lambda>i. col ! i) (kept_rows df)))
                   (mean (to_numeric_ignore parse (map (\<lambda>i. col ! i) (kept_rows df))))
            else to_numeric_ignore parse (map (\<lambda>i. col ! i) (kept_rows df)))) df"
  by (simp add: clean_data_def fill_numeric_def coerce_columns_def drop_duplicates_def
      case_prod_unfold)

lemma clean_data_settled:
  "(name, col) \<in> set (clean_data parse df) \<Longrightarrow> settled parse col"
  unfolding clean_data_cols using settled_after_clean by auto

lemma row_at_eq_col:
  assumes "row_at df j = row_at df i" "(name, col) \<in> set df"
  shows "col ! j = col ! i"
proof -
  from assms(2) obtain k where k: "k < length df" "df ! k = (name, col)"
    by (auto simp: in_set_conv_nth)
  from assms(1) have "row_at df j ! k = row_at df i ! k" by simp
  with k show ?thesis by (simp add: row_at_def)
qed

lemma settled_kept:
  assumes wf: "well_formed df" and nc: "(name, col) \<in> set df" and s: "settled parse col"
  shows "settled parse (map (\<lambda>i. col ! i) (kept_rows df))"
proof -
  let ?k = "map (\<lambda>i. col ! i) (kept_rows df)"
  have len: "length col = nrows df" using wf nc by (rule well_formed_col)
  have sub: "set ?k \<subseteq> set col"
    using kept_rows_bound [of _ df] len by auto
  from s consider
      (num) "is_numeric col" "Missing \<in> set col \<longrightarrow> present col = []"
    | (str) v where "v \<in> set col" "coerce_cell parse v = None"
    by (auto simp: settled_def)
  then show ?thesis
  proof cases
    case num
    from num(1) sub have "is_numeric ?k" by (auto simp: is_numeric_def list_all_iff)
    moreover have "present ?k = []" if "Missing \<in> set ?k"
    proof -
      from that sub num(2) have "present col = []" by auto
      with sub show ?thesis unfolding present_empty_iff by blast
    qed
    ultimately show ?thesis by (simp add: settled_def)
  next
    case str
    from str(1) obtain i where i: "i < length col" "col ! i = v" by (auto simp: in_set_conv_nth)
    with len have "i < nrows df" by simp
    from first_occurrence_kept [OF this] obtain j where
      j: "j \<in> set (kept_rows df)" "row_at df j = row_at df i" by auto
    from row_at_eq_col [OF j(2) nc] i have "col ! j = v" by simp
    with j(1) have "v \<in> set ?k" by force
    with str(2) show ?thesis by (auto simp: settled_def)
  qed
qed

lemma clean_data_of_settled:
  assumes wf: "well_formed df" and s: "\<And>name col. (name, col) \<in> set df \<Longrightarrow> settled parse col"
  shows "clean_data parse df = drop_duplicates df"
  unfolding clean_data_cols drop_duplicates_def
proof (rule map_cong [OF refl])
  fix x assume x: "x \<in> set df"
  obtain name col where nc: "x = (name, col)" by (cases x)
  with x s have "settled parse col" by simp
  with wf x nc have k: "settled parse (map (\<lambda>i. col ! i) (kept_rows df))"
    by (simp add: settled_kept)
  show "(case x of (name, col) \<Rightarrow> (name,
            if is_numeric (to_numeric_ignore parse (map (\<lambda>i. col ! i) (kept_rows df)))
            then fillna (to_numeric_ignore parse (map (\<lambda>i. col ! i) (kept_rows df)))
                   (mean (to_numeric_ignore parse (map (\<lambda>i. col ! i) (kept_rows df))))
            else to_numeric_ignore parse (map (\<lambda>i. col ! i) (kept_rows df))))
        = (case x of (name, col) \<Rightarrow> (name, map (\<lambda>i. col ! i) (kept_rows df)))"
    unfolding nc by (simp add: settled_fixed [OF k])
qed

text \<open>
  Claim C4, amended. On its own output, cleaning does what \<open>drop_duplicates\<close> does: the
  conversion and the mean-fill change nothing a second time. So cleaning twice equals
  cleaning once whenever the cleaned dataset has no two equal rows.
\<close>

theorem clean_data_twice:
  assumes "well_formed df"
  shows "clean_data parse (clean_data parse df) = drop_duplicates (clean_data parse df)
    \<and> (distinct (rows (clean_data parse df))
          \<longrightarrow> clean_data parse (clean_data parse df) = clean_data parse df)"
proof -
  have wf: "well_formed (clean_data parse df)"
    using assms by (rule well_formed_clean_data)
  have a: "clean_data parse (clean_data parse df) = drop_duplicates (clean_data parse df)"
    using wf clean_data_settled by (rule clean_data_of_settled)
  moreover have "drop_duplicates (clean_data parse df) = clean_data parse df"
    if "distinct (rows (clean_data parse df))"
    using wf that by (rule drop_duplicates_distinct)
  ultimately show ?thesis by simp
qed

text \<open>
  Claim C5, amended. The cleaned dataset has at most as many rows as the input: one row
  for each different row of the input, those that \<open>drop_duplicates\<close> keeps, which are
  pairwise different before conversion and mean-fill.
\<close>

theorem clean_data_row_count:
  assumes "well_formed df"
  shows "nrows (clean_data parse df) \<le> nrows df
    \<and> nrows (clean_data parse df) = card (set (rows df))
    \<and> nrows (clean_data parse df) = nrows (drop_duplicates df)
    \<and> distinct (rows (drop_duplicates df))
    \<and> set (rows (drop_duplicates df)) = set (rows df)"
proof -
  have d: "distinct (rows (drop_duplicates df))"
    unfolding rows_drop_duplicates [OF assms] by (rule distinct_kept_rows)
  have s: "set (rows (drop_duplicates df)) = set (rows df)"
    using assms by (rule set_rows_drop_duplicates)
  have n: "nrows (clean_data parse df) = nrows (drop_duplicates df)"
    using assms by (simp add: nrows_clean_data nrows_drop_duplicates)
  have "nrows (drop_duplicates df) = length (rows (drop_duplicates df))"
    by (simp add: rows_def)
  also have "\<dots> = card (set (rows (drop_duplicates df)))"
    using d by (simp add: distinct_card)
  finally have c: "nrows (clean_data parse df) = card (set (rows df))"
    using n s by simp
  have "card (set (rows df)) \<le> length (rows df)" by (rule card_length)
  then have "nrows (clean_data parse df) \<le> nrows df"
    using c by (simp add: rows_def)
  with c n d s show ?thesis by simp
qed

lemmas clean_unfold =
  clean_data_def fill_numeric_def coerce_columns_def drop_duplicates_def kept_rows_def
  duplicated_def row_at_def nrows_def to_numeric_ignore_def is_numeric_def mean_def fillna_def
  decimal_parser_def digit_value_def rows_def well_formed_def

lemma clean_fill_makes_duplicate:
  "clean_data decimal_parser fill_makes_duplicate =
     [(''energy_source'', [Str ''solar'', Str ''solar'']),
      (''production_volume'', [Num 100, Num 100])]"
  by (simp add: fill_makes_duplicate_def clean_unfold)

lemma clean_clean_fill_makes_duplicate:
  "clean_data decimal_parser (clean_data decimal_parser fill_makes_duplicate) =
     [(''energy_source'', [Str ''solar'']), (''production_volume'', [Num 100])]"
  unfolding clean_fill_makes_duplicate
  by (simp add: clean_unfold)

lemma clean_small_dataset:
  "clean_data decimal_parser small_dataset =
     [(''energy_source'', [Str ''solar'', Str ''wind'', Str ''gas'']),
      (''production_volume'', [Num 1, Num 2, Num (3 / 2)]),
      (''year'', [Num 2020, Num 2021, Num (4041 / 2)]),
      (''note'', [Str ''12'', Str ''n/a'', Str ''7''])]"
  by (simp add: small_dataset_def clean_unfold)

lemma wf_small: "well_formed small_dataset" 
  by (simp add: small_dataset_def clean_unfold)

lemma rows_small: "distinct (rows (clean_data decimal_parser small_dataset))"
  unfolding clean_small_dataset
  by (simp add: clean_unfold)

text \<open>
  Claim C4 says that cleaning is idempotent. The rows are de-duplicated before the
  mean is filled in, so the fill can make two rows equal, and a second cleaning drops one
  of them: with the rows (solar, 100) and (solar, missing) the first cleaning gives
  (solar, 100) twice and the second gives it once.
\<close>

theorem clean_data_not_idempotent:
  "well_formed fill_makes_duplicate
   \<and> clean_data decimal_parser fill_makes_duplicate =
       [(''energy_source'', [Str ''solar'', Str ''solar'']),
        (''production_volume'', [Num 100, Num 100])]
   \<and> clean_data decimal_parser (clean_data decimal_parser fill_makes_duplicate) =
       [(''energy_source'', [Str ''solar'']), (''production_volume'', [Num 100])]
   \<and> clean_data decimal_parser (clean_data decimal_parser fill_makes_duplicate)
       \<noteq> clean_data decimal_parser fill_makes_duplicate"
proof -
  have w: "well_formed fill_makes_duplicate"
    by (simp add: fill_makes_duplicate_def clean_unfold)
  have c: "clean_data decimal_parser (clean_data decimal_parser fill_makes_duplicate) =
       [(''energy_source'', [Str ''solar'']), (''production_volume'', [Num 100])]"
    by (rule clean_clean_fill_makes_duplicate)
  show ?thesis
    unfolding c by (simp add: w clean_fill_makes_duplicate)
qed

text \<open>A dataset whose cleaned rows are pairwise different: cleaning it again changes nothing.\<close>

theorem clean_data_twice_witness:
  "well_formed small_dataset
   \<and> distinct (rows (clean_data decimal_parser small_dataset))
   \<and> clean_data decimal_parser (clean_data decimal_parser small_dataset)
       = clean_data decimal_parser small_dataset
   \<and> clean_data decimal_parser small_dataset =
       [(''energy_source'', [Str ''solar'', Str ''wind'', Str ''gas'']),
        (''production_volume'', [Num 1, Num 2, Num (3 / 2)]),
        (''year'', [Num 2020, Num 2021, Num (4041 / 2)]),
        (''note'', [Str ''12'', Str ''n/a'', Str ''7''])]"
proof -
  from clean_data_twice [OF wf_small, of decimal_parser] rows_small
  have "clean_data decimal_parser (clean_data decimal_parser small_dataset)
       = clean_data decimal_parser small_dataset"
    by blast
  then show ?thesis
    using wf_small rows_small clean_small_dataset by simp
qed

text \<open>
  Claim C5 says that the cleaned dataset never has more rows than the input and has no
  two equal rows. The dataset above is cleaned to two equal rows.
\<close>

theorem clean_data_leaves_duplicates:
  "well_formed fill_makes_duplicate
   \<and> rows (clean_data decimal_parser fill_makes_duplicate)
       = [[Str ''solar'', Num 100], [Str ''solar'', Num 100]]
   \<and> \<not> distinct (rows (clean_data decimal_parser fill_makes_duplicate))"
proof -
  have "well_formed fill_makes_duplicate"
    by (simp add: fill_makes_duplicate_def clean_unfold)
  moreover have "rows (clean_data decimal_parser fill_makes_duplicate)
       = [[Str ''solar'', Num 100], [Str ''solar'', Num 100]]"
    unfolding clean_fill_makes_duplicate by (simp add: clean_unfold)
  ultimately show ?thesis by simp
qed

text \<open>Four rows, two of them equal: three rows are kept.\<close>

theorem clean_data_row_count_witness:
  "well_formed small_dataset
   \<and> nrows small_dataset = 4
   \<and> nrows (clean_data decimal_parser small_dataset) = 3
   \<and> rows (drop_duplicates small_dataset)
       = [[Str ''solar'', Num 1, Str ''2020'', Str ''12''],
          [Str ''wind'', Num 2, Str ''2021'', Str ''n/a''],
          [Str ''gas'', Missing, Str '''', Str ''7'']]"
proof -
  have n: "nrows small_dataset = 4" by (simp add: small_dataset_def clean_unfold)
  have c: "nrows (clean_data decimal_parser small_dataset) = 3"
    unfolding clean_small_dataset by (simp add: clean_unfold)
  have r: "rows (drop_duplicates small_dataset)
       = [[Str ''solar'', Num 1, Str ''2020'', Str ''12''],
          [Str ''wind'', Num 2, Str ''2021'', Str ''n/a''],
          [Str ''gas'', Missing, Str '''', Str ''7'']]"
    by (simp add: small_dataset_def clean_unfold)
  show ?thesis
    using clean_data_row_count [OF wf_small, of decimal_parser] wf_small n c r by simp
qed

lemma nth_clean_data:
  assumes "j < length df"
  shows "fst (clean_data parse df ! j) = fst (df ! j)"
    and "snd (drop_duplicates df ! j) = map (\<lambda>i. snd (df ! j) ! i) (kept_rows df)"
    and "snd (coerce_columns parse (drop_duplicates df) ! j)
           = to_numeric_ignore parse (snd (drop_duplicates df ! j))"
    and "snd (clean_data parse df ! j)
           = (if is_numeric (snd (coerce_columns parse (drop_duplicates df) ! j))
              then fillna (snd (coerce_columns parse (drop_duplicates df) ! j))
                     (mean (snd (coerce_columns parse (drop_duplicates df) ! j)))
              else snd (coerce_columns parse (drop_duplicates df) ! j))"
  using assms
  by (simp_all add: clean_data_def fill_numeric_def coerce_columns_def drop_duplicates_def
      case_prod_unfold)

lemma fillna_keeps_numbers:
  "i < length col \<Longrightarrow> col ! i = Num r \<Longrightarrow> fillna col m ! i = Num r"
  by (cases m) (simp_all add: fillna_def)

text \<open>
  Claim C7. Conversion is decided for a column as a whole. Take a column of the
  de-duplicated dataset, the rows \<open>drop_duplicates\<close> keeps of the column of the input. If
  one of its values does not convert to a number, the column comes out of the conversion
  loop and out of \<open>clean_data\<close> exactly as it went in: no value of it is converted, not
  even one that would convert by itself. If every value converts, the converted column
  holds the converted value of each cell and is numeric, and the column that
  \<open>clean_data\<close> returns is numeric, of the same length, and holds at each place the number
  that the value there converts to.
\<close>

theorem coercion_all_or_nothing:
  assumes "j < length df"
  shows "fst (clean_data parse df ! j) = fst (df ! j)
    \<and> snd (drop_duplicates df ! j) = map (\<lambda>i. snd (df ! j) ! i) (kept_rows df)
    \<and> ((\<exists>v \<in> set (snd (drop_duplicates df ! j)). coerce_cell parse v = None)
          \<longrightarrow> snd (coerce_columns parse (drop_duplicates df) ! j) = snd (drop_duplicates df ! j)
              \<and> snd (clean_data parse df ! j) = snd (drop_duplicates df ! j))
    \<and> ((\<forall>v \<in> set (snd (drop_duplicates df ! j)). coerce_cell parse v \<noteq> None)
          \<longrightarrow> is_numeric (snd (coerce_columns parse (drop_duplicates df) ! j))
              \<and> map Some (snd (coerce_columns parse (drop_duplicates df) ! j))
                  = map (coerce_cell parse) (snd (drop_duplicates df ! j))
              \<and> is_numeric (snd (clean_data parse df ! j))
              \<and> length (snd (clean_data parse df ! j)) = length (snd (drop_duplicates df ! j))
              \<and> (\<forall>i r. i < length (snd (drop_duplicates df ! j))
                      \<and> coerce_cell parse (snd (drop_duplicates df ! j) ! i) = Some (Num r)
                    \<longrightarrow> snd (clean_data parse df ! j) ! i = Num r))"
proof -
  let ?d = "snd (drop_duplicates df ! j)"
  let ?c = "snd (coerce_columns parse (drop_duplicates df) ! j)"
  let ?out = "snd (clean_data parse df ! j)"
  note n = nth_clean_data [OF assms]
  have a: "?c = ?d \<and> ?out = ?d"
    if "\<exists>v \<in> set ?d. coerce_cell parse v = None"
  proof -
    from that obtain v where v: "v \<in> set ?d" "coerce_cell parse v = None" by auto
    then have c: "?c = ?d" unfolding n(3) by (rule to_numeric_ignore_fail)
    from v have "\<not> is_numeric ?d"
      by (auto simp: is_numeric_def list_all_iff dest: coerce_cell_None)
    with c show ?thesis by (simp add: n(4))
  qed
  have b: "is_numeric ?c \<and> map Some ?c = map (coerce_cell parse) ?d
        \<and> is_numeric ?out \<and> length ?out = length ?d
        \<and> (\<forall>i r. i < length ?d \<and> coerce_cell parse (?d ! i) = Some (Num r) \<longrightarrow> ?out ! i = Num r)"
    if h: "\<forall>v \<in> set ?d. coerce_cell parse v \<noteq> None"
  proof -
    have num: "is_numeric ?c" and conv: "map Some ?c = map (coerce_cell parse) ?d"
      unfolding n(3) using to_numeric_ignore_ok [OF h] by simp_all
    have out: "?out = fillna ?c (mean ?c)" using num by (simp add: n(4))
    have len: "length ?c = length ?d" unfolding n(3) by (rule length_to_numeric_ignore)
    have "is_numeric ?out" unfolding out using num by (rule is_numeric_fillna)
    moreover have "length ?out = length ?d" unfolding out by (simp add: length_fillna len)
    moreover have "?out ! i = Num r"
      if i: "i < length ?d" "coerce_cell parse (?d ! i) = Some (Num r)" for i r
    proof -
      from conv i(1) len have "Some (?c ! i) = coerce_cell parse (?d ! i)"
        by (metis nth_map)
      with i(2) have "?c ! i = Num r" by simp
      with i(1) len show ?thesis unfolding out by (simp add: fillna_keeps_numbers)
    qed
    ultimately show ?thesis using num conv by blast
  qed
  from n(1,2) a b show ?thesis by blast
qed

text \<open>
  The column 12, n/a, 7 stays a column of strings, 12 included. The column 2020, 2021 and
  the empty string is converted to 2020, 2021 and a missing value, and \<open>clean_data\<close>
  returns it as numbers.
\<close>

theorem coercion_all_or_nothing_witness:
  "(2::nat) < length small_dataset \<and> (3::nat) < length small_dataset
   \<and> snd (drop_duplicates small_dataset ! 3) = [Str ''12'', Str ''n/a'', Str ''7'']
   \<and> coerce_cell decimal_parser (Str ''n/a'') = None
   \<and> coerce_cell decimal_parser (Str ''12'') = Some (Num 12)
   \<and> snd (coerce_columns decimal_parser (drop_duplicates small_dataset) ! 3)
       = [Str ''12'', Str ''n/a'', Str ''7'']
   \<and> snd (clean_data decimal_parser small_dataset ! 3) = [Str ''12'', Str ''n/a'', Str ''7'']
   \<and> snd (drop_duplicates small_dataset ! 2) = [Str ''2020'', Str ''2021'', Str '''']
   \<and> snd (coerce_columns decimal_parser (drop_duplicates small_dataset) ! 2)
       = [Num 2020, Num 2021, Missing]
   \<and> is_numeric (snd (clean_data decimal_parser small_dataset ! 2))
   \<and> snd (clean_data decimal_parser small_dataset ! 2) ! 0 = Num 2020
   \<and> snd (clean_data decimal_parser small_dataset ! 2) ! 1 = Num 2021"
proof -
  have l: "(2::nat) < length small_dataset" "(3::nat) < length small_dataset"
    by (simp_all add: small_dataset_def)
  have d: "snd (drop_duplicates small_dataset ! 3) = [Str ''12'', Str ''n/a'', Str ''7'']"
      "snd (drop_duplicates small_dataset ! 2) = [Str ''2020'', Str ''2021'', Str '''']"
    by (simp_all add: small_dataset_def clean_unfold)
  have c: "coerce_cell decimal_parser (Str ''n/a'') = None"
      "coerce_cell decimal_parser (Str ''12'') = Some (Num 12)"
      "coerce_cell decimal_parser (Str ''2020'') = Some (Num 2020)"
      "coerce_cell decimal_parser (Str ''2021'') = Some (Num 2021)"
      "coerce_cell decimal_parser (Str '''') = Some Missing"
    by (simp_all add: decimal_parser_def digit_value_def)
  have m: "map Some xs = [Some a, Some b, Some c] \<longleftrightarrow> xs = [a, b, c]" for xs :: "cell list" and a b c
    by auto
  have s: "snd (clean_data decimal_parser small_dataset ! 3) = [Str ''12'', Str ''n/a'', Str ''7'']"
    using coercion_all_or_nothing [OF l(2), of decimal_parser] d(1) c(1) by simp
  have t: "snd (coerce_columns decimal_parser (drop_duplicates small_dataset) ! 3)
       = [Str ''12'', Str ''n/a'', Str ''7'']"
    using coercion_all_or_nothing [OF l(2), of decimal_parser] d(1) c(1) by simp
  have y: "snd (coerce_columns decimal_parser (drop_duplicates small_dataset) ! 2)
         = [Num 2020, Num 2021, Missing]
       \<and> is_numeric (snd (clean_data decimal_parser small_dataset ! 2))
       \<and> snd (clean_data decimal_parser small_dataset ! 2) ! 0 = Num 2020
       \<and> snd (clean_data decimal_parser small_dataset ! 2) ! 1 = Num 2021"
  proof -
    note w = coercion_all_or_nothing [OF l(1), of decimal_parser]
    have all: "\<forall>v \<in> set (snd (drop_duplicates small_dataset ! 2)). coerce_cell decimal_parser v \<noteq> None"
      by (simp add: d(2) c del: coerce_cell.simps)
    from w all have
      k: "map Some (snd (coerce_columns decimal_parser (drop_duplicates small_dataset) ! 2))
            = map (coerce_cell decimal_parser) (snd (drop_duplicates small_dataset ! 2))"
         "is_numeric (snd (clean_data decimal_parser small_dataset ! 2))"
         "\<forall>i r. i < length (snd (drop_duplicates small_dataset ! 2))
                      \<and> coerce_cell decimal_parser (snd (drop_duplicates small_dataset ! 2) ! i) = Some (Num r)
                    \<longrightarrow> snd (clean_data decimal_parser small_dataset ! 2) ! i = Num r"
      by blast+
    from k(1) have "snd (coerce_columns decimal_parser (drop_duplicates small_dataset) ! 2)
         = [Num 2020, Num 2021, Missing]"
      by (simp add: d(2) c m del: coerce_cell.simps)
    moreover from k(3) have "snd (clean_data decimal_parser small_dataset ! 2) ! 0 = Num 2020"
      "snd (clean_data decimal_parser small_dataset ! 2) ! 1 = Num 2021"
      by (simp_all add: d(2) c del: coerce_cell.simps)
    ultimately show ?thesis using k(2) by simp
  qed
  from l d c s t y show ?thesis by simp
qed

section \<open>Properties of file ingestion\<close>

lemma split_on_nonempty: "split_on sep s \<noteq> []"
  by (induction s) (auto split: list.splits)

lemma split_on_no_sep: "sep \<notin> set s \<Longrightarrow> split_on sep s = [s]"
  by (induction s) auto

lemma split_on_sep: "sep \<in> set s \<Longrightarrow> \<exists>p q r. split_on sep s = p # q # r"
proof (induction s)
  case Nil
  then show ?case by simp
next
  case (Cons c cs)
  show ?case
  proof (cases "c = sep")
    case True
    then show ?thesis using split_on_nonempty [of sep cs]
      by (cases "split_on sep cs") auto
  next
    case False
    with Cons.prems have "sep \<in> set cs" by simp
    from Cons.IH [OF this] False show ?thesis by auto
  qed
qed

lemma last_split_on:
  "last (split_on sep s) = rev (takeWhile (\<lambda>c. c \<noteq> sep) (rev s))"
proof (induction s)
  case Nil
  then show ?case by simp
next
  case (Cons c cs)
  show ?case
  proof (cases "sep \<in> set cs")
    case True
    then obtain p q r where s: "split_on sep cs = p # q # r"
      using split_on_sep by blast
    have "last (split_on sep (c # cs)) = last (split_on sep cs)"
      by (simp add: s)
    moreover have "takeWhile (\<lambda>c. c \<noteq> sep) (rev (c # cs)) = takeWhile (\<lambda>c. c \<noteq> sep) (rev cs)"
      using True by (auto simp: takeWhile_append)
    ultimately show ?thesis using Cons.IH by simp
  next
    case False
    then have s: "split_on sep cs = [cs]" by (rule split_on_no_sep)
    from False have t: "takeWhile (\<lambda>c. c \<noteq> sep) (rev cs) = rev cs"
      by (auto simp: takeWhile_eq_all_conv)
    show ?thesis
    proof (cases "c = sep")
      case True
      then show ?thesis using False by (simp add: s takeWhile_append t)
    next
      case False
      then show ?thesis using \<open>sep \<notin> set cs\<close> by (simp add: s takeWhile_append t)
    qed
  qed
qed

lemma file_extension_eq:
  "file_extension name = Inr (rev (takeWhile (\<lambda>c. c \<noteq> CHR ''.'') (rev name)))"
  by (simp add: file_extension_def py_last_def split_on_nonempty last_split_on)

text \<open>
  Claim C10. The extension \<open>process_uploaded_file\<close> compares is the part of the file name
  after its last dot (the whole name when it has no dot). It is compared with exactly
  \<open>csv\<close> and \<open>json\<close>: for every other extension, \<open>CSV\<close>, \<open>Json\<close> and \<open>bak\<close> among them, the
  function returns no dataset and shows the error of an unsupported format, and no
  reader is called.
\<close>

theorem process_uploaded_file_extension:
  "file_extension (file_name file)
      = Inr (rev (takeWhile (\<lambda>c. c \<noteq> CHR ''.'') (rev (file_name file))))
   \<and> (rev (takeWhile (\<lambda>c. c \<noteq> CHR ''.'') (rev (file_name file))) \<noteq> ''csv''
      \<and> rev (takeWhile (\<lambda>c. c \<noteq> CHR ''.'') (rev (file_name file))) \<noteq> ''json''
      \<longrightarrow> process_uploaded_file read_csv read_json file
            = (None, [ValueError ''Unsupported file format'']))
   \<and> (rev (takeWhile (\<lambda>c. c \<noteq> CHR ''.'') (rev (file_name file))) = ''csv''
      \<longrightarrow> try_body read_csv read_json file = read_csv file)
   \<and> (rev (takeWhile (\<lambda>c. c \<noteq> CHR ''.'') (rev (file_name file))) = ''json''
      \<longrightarrow> try_body read_csv read_json file = read_json file)"
  by (simp add: process_uploaded_file_def try_body_def file_extension_eq)

text \<open>The file names \<open>data.CSV\<close>, \<open>data.Json\<close> and \<open>data.csv.bak\<close>, and \<open>data.csv\<close> for contrast.\<close>

theorem process_uploaded_file_extension_witness:
  "process_uploaded_file reads_small_dataset reads_small_dataset
       \<lparr>file_name = ''data.CSV'', file_content = ''''\<rparr>
     = (None, [ValueError ''Unsupported file format''])
   \<and> process_uploaded_file reads_small_dataset reads_small_dataset
       \<lparr>file_name = ''data.Json'', file_content = ''''\<rparr>
     = (None, [ValueError ''Unsupported file format''])
   \<and> process_uploaded_file reads_small_dataset reads_small_dataset
       \<lparr>file_name = ''data.csv.bak'', file_content = ''''\<rparr>
     = (None, [ValueError ''Unsupported file format''])
   \<and> file_extension ''data.csv.bak'' = Inr ''bak''
   \<and> file_extension ''data.CSV'' = Inr ''CSV''
   \<and> process_uploaded_file reads_small_dataset read_fails
       \<lparr>file_name = ''data.csv'', file_content = ''''\<rparr>
     = (Some small_dataset, [])"
proof -
  have e: "file_extension ''data.csv.bak'' = Inr ''bak''" "file_extension ''data.CSV'' = Inr ''CSV''"
     "file_extension ''data.Json'' = Inr ''Json''" "file_extension ''data.csv'' = Inr ''csv''"
    by (simp_all add: file_extension_eq)
  have ok: "process_uploaded_file reads_small_dataset read_fails
       \<lparr>file_name = ''data.csv'', file_content = ''''\<rparr> = (Some small_dataset, [])"
    by (simp add: process_uploaded_file_def try_body_def e reads_small_dataset_def)
  show ?thesis
    using process_uploaded_file_extension [of "\<lparr>file_name = ''data.CSV'', file_content = ''''\<rparr>"
        reads_small_dataset reads_small_dataset]
      process_uploaded_file_extension [of "\<lparr>file_name = ''data.Json'', file_content = ''''\<rparr>"
        reads_small_dataset reads_small_dataset]
      process_uploaded_file_extension [of "\<lparr>file_name = ''data.csv.bak'', file_content = ''''\<rparr>"
        reads_small_dataset reads_small_dataset]
      e ok
    by simp
qed

text \<open>
  Claim C9. \<open>process_uploaded_file\<close> returns on every file: taking the extension never
  fails; an extension other than \<open>csv\<close> and \<open>json\<close>, or a reader that raises, gives
  \<open>None\<close> with the error shown once; a reader that returns gives its dataset and shows
  nothing. When the result is \<open>None\<close>, \<open>main\<close> runs nothing of what follows the check
  \<open>if df is not None\<close>.
\<close>

theorem process_uploaded_file_never_raises:
  "(\<exists>extension. file_extension (file_name file) = Inr extension
      \<and> (extension \<noteq> ''csv'' \<and> extension \<noteq> ''json''
           \<longrightarrow> process_uploaded_file read_csv read_json file
                 = (None, [ValueError ''Unsupported file format'']))
      \<and> (\<forall>error. (extension = ''csv'' \<and> read_csv file = Inl error)
                   \<or> (extension = ''json'' \<and> read_json file = Inl error)
           \<longrightarrow> process_uploaded_file read_csv read_json file = (None, [error]))
      \<and> (\<forall>df. (extension = ''csv'' \<and> read_csv file = Inr df)
                \<or> (extension = ''json'' \<and> read_json file = Inr df)
           \<longrightarrow> process_uploaded_file read_csv read_json file = (Some df, [])))
   \<and> ((\<exists>df. process_uploaded_file read_csv read_json file = (Some df, []))
        \<or> (\<exists>error. process_uploaded_file read_csv read_json file = (None, [error])))
   \<and> (fst (process_uploaded_file read_csv read_json file) = None
        \<longrightarrow> main read_csv read_json downstream (Some file)
              = (snd (process_uploaded_file read_csv read_json file), None))
   \<and> (\<forall>df. fst (process_uploaded_file read_csv read_json file) = Some df
        \<longrightarrow> main read_csv read_json downstream (Some file) = ([], Some (downstream df)))"
proof -
  obtain extension where e: "file_extension (file_name file) = Inr extension"
    by (simp add: file_extension_eq)
  have a: "\<exists>extension. file_extension (file_name file) = Inr extension
      \<and> (extension \<noteq> ''csv'' \<and> extension \<noteq> ''json''
           \<longrightarrow> process_uploaded_file read_csv read_json file
                 = (None, [ValueError ''Unsupported file format'']))
      \<and> (\<forall>error. (extension = ''csv'' \<and> read_csv file = Inl error)
                   \<or> (extension = ''json'' \<and> read_json file = Inl error)
           \<longrightarrow> process_uploaded_file read_csv read_json file = (None, [error]))
      \<and> (\<forall>df. (extension = ''csv'' \<and> read_csv file = Inr df)
                \<or> (extension = ''json'' \<and> read_json file = Inr df)
           \<longrightarrow> process_uploaded_file read_csv read_json file = (Some df, []))"
    by (rule exI [of _ extension]) (auto simp: e process_uploaded_file_def try_body_def)
  have b: "(\<exists>df. process_uploaded_file read_csv read_json file = (Some df, []))
        \<or> (\<exists>error. process_uploaded_file read_csv read_json file = (None, [error]))"
    by (cases "try_body read_csv read_json file") (simp_all add: process_uploaded_file_def)
  have c: "main read_csv read_json downstream (Some file)
              = (snd (process_uploaded_file read_csv read_json file), None)"
    if "fst (process_uploaded_file read_csv read_json file) = None"
    using that by (cases "process_uploaded_file read_csv read_json file") (simp add: main_def)
  have d: "main read_csv read_json downstream (Some file) = ([], Some (downstream df))"
    if "fst (process_uploaded_file read_csv read_json file) = Some df" for df
    using that b by (auto simp: main_def)
  from a b c d show ?thesis by blast
qed

text \<open>A CSV file whose reader raises, a file of another extension, and a JSON file that is read.\<close>

theorem process_uploaded_file_never_raises_witness:
  "process_uploaded_file read_fails reads_small_dataset
       \<lparr>file_name = ''trade.csv'', file_content = ''a,b''\<rparr>
     = (None, [LibraryError ''ParserError: Error tokenizing data''])
   \<and> main read_fails reads_small_dataset (clean_data decimal_parser)
       (Some \<lparr>file_name = ''trade.csv'', file_content = ''a,b''\<rparr>)
     = ([LibraryError ''ParserError: Error tokenizing data''], None)
   \<and> main read_fails reads_small_dataset (clean_data decimal_parser)
       (Some \<lparr>file_name = ''trade.xlsx'', file_content = ''a,b''\<rparr>)
     = ([ValueError ''Unsupported file format''], None)
   \<and> main read_fails reads_small_dataset (clean_data decimal_parser)
       (Some \<lparr>file_name = ''trade.json'', file_content = ''[]''\<rparr>)
     = ([], Some (clean_data decimal_parser small_dataset))"
proof -
  have e: "file_extension ''trade.csv'' = Inr ''csv''" "file_extension ''trade.xlsx'' = Inr ''xlsx''"
      "file_extension ''trade.json'' = Inr ''json''"
    by (simp_all add: file_extension_eq)
  have p: "process_uploaded_file read_fails reads_small_dataset
       \<lparr>file_name = ''trade.csv'', file_content = ''a,b''\<rparr>
     = (None, [LibraryError ''ParserError: Error tokenizing data''])"
     "process_uploaded_file read_fails reads_small_dataset
       \<lparr>file_name = ''trade.xlsx'', file_content = ''a,b''\<rparr>
     = (None, [ValueError ''Unsupported file format''])"
     "process_uploaded_file read_fails reads_small_dataset
       \<lparr>file_name = ''trade.json'', file_content = ''[]''\<rparr>
     = (Some small_dataset, [])"
    by (simp_all add: process_uploaded_file_def try_body_def e read_fails_def reads_small_dataset_def)
  show ?thesis
    using process_uploaded_file_never_raises [of "\<lparr>file_name = ''trade.csv'', file_content = ''a,b''\<rparr>"
        read_fails reads_small_dataset "clean_data decimal_parser"]
      process_uploaded_file_never_raises [of "\<lparr>file_name = ''trade.xlsx'', file_content = ''a,b''\<rparr>"
        read_fails reads_small_dataset "clean_data decimal_parser"]
      process_uploaded_file_never_raises [of "\<lparr>file_name = ''trade.json'', file_content = ''[]''\<rparr>"
        read_fails reads_small_dataset "clean_data decimal_parser"]
    by (simp add: p)
qed

end
